theory Spec2Isabelle
  imports Complex_Main "HOL-Library.Monad_Syntax"
begin

section \<open>Fibonacci efficiency comparison: the three strategies and the timing harness\<close>

text \<open>
  The development embeds \<^verbatim>\<open>Problemas/fibonacci/fibonacci_efficiency.py\<close>.
  Python's \<^verbatim>\<open>int\<close> is unbounded, so every integer of the program is an \<^typ>\<open>int\<close>;
  no arithmetic of the program can overflow. The interpreter's recursion limit is a
  resource bound of the host and is not part of the model: a call whose recursion never
  reaches a base case is modelled as not returning (\<open>None\<close>).
\<close>

subsection \<open>The mathematical Fibonacci function\<close>

text \<open>
  The reference function the contracts speak about: \<open>fib(0) = 0\<close>, \<open>fib(1) = 1\<close>,
  \<open>fib(n) = fib(n-1) + fib(n-2)\<close>. It is defined from the contract's words and is what
  the three strategies of the source are compared with.
\<close>

fun fib_spec :: "nat \<Rightarrow> int" where
  "fib_spec 0 = 0"
| "fib_spec (Suc 0) = 1"
| "fib_spec (Suc (Suc n)) = fib_spec (Suc n) + fib_spec n"

subsection \<open>Recursive strategy\<close>

text \<open>
  \<^verbatim>\<open>
  def fib_recursive_with_counts(n):
      if n < 2:
          return n, 1
      v1, s1 = fib_recursive_with_counts(n-1)
      v2, s2 = fib_recursive_with_counts(n-2)
      return v1 + v2, s1 + s2 + 1
  \<close>
  Both recursive calls are on smaller arguments that stay at least \<open>0\<close>, so the function
  is total on all integers.
\<close>

function fib_recursive_with_counts :: "int \<Rightarrow> int \<times> int" where
  "fib_recursive_with_counts n =
     (if n < 2 then (n, 1)
      else (case fib_recursive_with_counts (n - 1) of (v1, s1) \<Rightarrow>
            case fib_recursive_with_counts (n - 2) of (v2, s2) \<Rightarrow>
              (v1 + v2, s1 + s2 + 1)))"
  by pat_completeness auto
termination
  by (relation "measure nat") auto

declare fib_recursive_with_counts.simps [simp del]

text \<open>
  The tree of calls the naive recursion makes: one node per evaluation of the function,
  with the two sub-calls of a non-base call as children.
\<close>

datatype call_tree = Base int | Branch int call_tree call_tree

fun nodes :: "call_tree \<Rightarrow> int" where
  "nodes (Base n) = 1"
| "nodes (Branch n l r) = 1 + nodes l + nodes r"

function recursion_tree :: "int \<Rightarrow> call_tree" where
  "recursion_tree n =
     (if n < 2 then Base n
      else Branch n (recursion_tree (n - 1)) (recursion_tree (n - 2)))"
  by pat_completeness auto
termination
  by (relation "measure nat") auto

declare recursion_tree.simps [simp del]

subsection \<open>Iterative strategy\<close>

text \<open>
  \<^verbatim>\<open>
  def fib_iterative_with_counts(n):
      if n < 2:
          return n, 1
      a, b = 0, 1
      steps = 1
      for _ in range(2, n+1):
          a, b = b, a + b
          steps += 1
      return b, steps
  \<close>
  \<open>range_py lo hi\<close> is Python's \<^verbatim>\<open>range(lo, hi)\<close>: the integers from \<open>lo\<close> up to
  \<open>hi - 1\<close>. The loop is a recursion over that list on the state \<open>(a, b, steps)\<close>; the
  loop variable is not used by the body.
\<close>

definition range_py :: "int \<Rightarrow> int \<Rightarrow> int list" where
  "range_py lo hi = [lo..hi - 1]"

fun iter_loop :: "int list \<Rightarrow> int \<times> int \<times> int \<Rightarrow> int \<times> int \<times> int" where
  "iter_loop [] st = st"
| "iter_loop (i # is) (a, b, steps) = iter_loop is (b, a + b, steps + 1)"

definition fib_iterative_with_counts :: "int \<Rightarrow> int \<times> int" where
  "fib_iterative_with_counts n =
     (if n < 2 then (n, 1)
      else (case iter_loop (range_py 2 (n + 1)) (0, 1, 1) of
              (a, b, steps) \<Rightarrow> (b, steps)))"

subsection \<open>Fast-doubling strategy\<close>

text \<open>
  \<^verbatim>\<open>
  def fib_fast_doubling_with_counts(n):
      def fd(k):
          if k == 0:
              return 0, 1, 1
          f_k, f_k1, s = fd(k >> 1)
          c = f_k * ((f_k1 << 1) - f_k)
          d = f_k*f_k + f_k1*f_k1
          if k & 1:
              return d, c + d, s + 1
          else:
              return c, d, s + 1
      f_n, _, steps = fd(n)
      return f_n, steps
  \<close>
  On Python integers \<^verbatim>\<open>k >> 1\<close> is \<open>drop_bit 1 k\<close> (the floor of \<open>k / 2\<close>, also for
  negative \<open>k\<close>), \<^verbatim>\<open>x << 1\<close> is \<open>push_bit 1 x\<close> and \<^verbatim>\<open>k & 1\<close> is the lowest bit
  in two's complement. The recursion of \<open>fd\<close> need not reach \<open>k = 0\<close>, so \<open>fd\<close> returns
  an option: \<open>None\<close> is a call that does not return a value.
\<close>

unbundle bit_operations_syntax

partial_function (option) fd :: "int \<Rightarrow> (int \<times> int \<times> int) option" where
  "fd k =
     (if k = 0 then Some (0, 1, 1)
      else do {
        (f_k, f_k1, s) \<leftarrow> fd (drop_bit 1 k);
        let c = f_k * (push_bit 1 f_k1 - f_k);
        let d = f_k * f_k + f_k1 * f_k1;
        if k AND 1 \<noteq> 0 then Some (d, c + d, s + 1)
        else Some (c, d, s + 1)
      })"

declare fd.simps [code]

definition fib_fast_doubling_with_counts :: "int \<Rightarrow> (int \<times> int) option" where
  "fib_fast_doubling_with_counts n =
     do { (f_n, f_n1, steps) \<leftarrow> fd n; Some (f_n, steps) }"

subsection \<open>Timing harness\<close>

text \<open>
  \<^verbatim>\<open>
  @dataclass
  class FibResult:
      n: int
      value: int
      steps: int
      time_ms: float
      algo: str

  def run_and_time(fn, n_list, name):
      out = []
      for n in n_list:
          t0 = time.perf_counter()
          val, steps = fn(n)
          dt = (time.perf_counter() - t0)*1000.0
          out.append(FibResult(n, val, steps, dt, name))
      return out
  \<close>
  The fields carry the prefix \<open>res_\<close>, since \<open>n\<close>, \<open>value\<close> and \<open>steps\<close> are needed as
  variable names. The clock is an input of the model: \<open>clk t\<close> is the \<open>t\<close>-th reading of
  \<^verbatim>\<open>time.perf_counter()\<close> made by the call, and the loop carries the number of readings
  made so far. The readings and \<open>time_ms\<close> are floats in the source; the model computes
  on them as reals, and no property stated below depends on their values. A strategy is a
  function to an option, \<open>None\<close> when it does not return; the harness does not return
  either in that case.
\<close>

record FibResult =
  res_n :: int
  res_value :: int
  res_steps :: int
  res_time_ms :: real
  res_algo :: string

fun run_loop ::
  "(int \<Rightarrow> (int \<times> int) option) \<Rightarrow> string \<Rightarrow> (nat \<Rightarrow> real) \<Rightarrow>
     int list \<Rightarrow> nat \<Rightarrow> FibResult list \<Rightarrow> FibResult list option" where
  "run_loop fn name clk [] t out = Some out"
| "run_loop fn name clk (n # ns) t out =
     (let t0 = clk t in
      case fn n of
        None \<Rightarrow> None
      | Some (val, steps) \<Rightarrow>
          (let dt = (clk (t + 1) - t0) * 1000 in
           run_loop fn name clk ns (t + 2)
             (out @ [\<lparr>res_n = n, res_value = val, res_steps = steps,
                      res_time_ms = dt, res_algo = name\<rparr>])))"

definition run_and_time ::
  "(int \<Rightarrow> (int \<times> int) option) \<Rightarrow> int list \<Rightarrow> string \<Rightarrow> (nat \<Rightarrow> real) \<Rightarrow>
     FibResult list option" where
  "run_and_time fn n_list name clk = run_loop fn name clk n_list 0 []"

subsection \<open>Digit count of the large-n table\<close>





section \<open>Properties\<close>

subsection \<open>The doubling identities of the Fibonacci function\<close>

lemma fib_spec_add:
  "fib_spec (Suc (m + n)) = fib_spec (Suc m) * fib_spec (Suc n) + fib_spec m * fib_spec n"
  by (induction m rule: fib_spec.induct) (simp_all add: algebra_simps)

lemma fib_spec_odd:
  "fib_spec (Suc (2 * k)) = fib_spec k * fib_spec k + fib_spec (Suc k) * fib_spec (Suc k)"
  using fib_spec_add [of k k] by (simp add: mult_2)

lemma fib_spec_even: "fib_spec (2 * k) = fib_spec k * (2 * fib_spec (Suc k) - fib_spec k)"
proof (cases k)
  case 0
  then show ?thesis by simp
next
  case (Suc j)
  have "fib_spec (2 * k) = fib_spec (Suc (j + k))" using Suc by (simp add: mult_2)
  also have "\<dots> = fib_spec (Suc j) * fib_spec (Suc k) + fib_spec j * fib_spec k"
    by (rule fib_spec_add)
  also have "fib_spec j = fib_spec (Suc k) - fib_spec k" using Suc by simp
  finally show ?thesis using Suc by (simp add: algebra_simps)
qed

subsection \<open>The recursion of fast doubling\<close>

text \<open>
  One unfolding of \<open>fd\<close> at \<open>k \<noteq> 0\<close>, with the shifts and the bit test of the source
  written arithmetically: \<open>k >> 1\<close> is \<open>k div 2\<close>, \<open>x << 1\<close> is \<open>2 * x\<close> and
  \<open>k & 1\<close> is non-zero exactly for odd \<open>k\<close>.
\<close>

lemma fd_0: "fd 0 = Some (0, 1, 1)"
  by (subst fd.simps) simp

lemma fd_unfold:
  "k \<noteq> 0 \<Longrightarrow> fd (k div 2) = Some (a, b, s) \<Longrightarrow>
   fd k = (if odd k then Some (a * a + b * b, a * (2 * b - a) + (a * a + b * b), s + 1)
           else Some (a * (2 * b - a), a * a + b * b, s + 1))"
  by (subst fd.simps)
    (simp add: Let_def and_one_eq push_bit_eq_mult drop_bit_eq_div odd_iff_mod_2_eq_one)

lemma fd_None: "k \<noteq> 0 \<Longrightarrow> fd (k div 2) = None \<Longrightarrow> fd k = None"
  by (subst fd.simps) (simp add: drop_bit_eq_div)

lemma fd_correct:
  "0 \<le> k \<Longrightarrow> \<exists>s. fd k = Some (fib_spec (nat k), fib_spec (Suc (nat k)), s)"
proof (induction "nat k" arbitrary: k rule: less_induct)
  case less
  show ?case
  proof (cases "k = 0")
    case True
    then show ?thesis by (simp add: fd_0)
  next
    case False
    define h where "h = k div 2"
    have h: "0 \<le> h" "nat h < nat k"
      using less.prems False unfolding h_def by linarith+
    from less.hyps [OF h(2) h(1)] obtain s
      where fh: "fd (k div 2) = Some (fib_spec (nat h), fib_spec (Suc (nat h)), s)"
      unfolding h_def by blast
    note step = fd_unfold [OF False fh]
    show ?thesis
    proof (cases "odd k")
      case True
      then have "k = 2 * h + 1" unfolding h_def by presburger
      then have nk: "nat k = Suc (2 * nat h)" using h(1) by linarith
      show ?thesis using step True
        by (simp add: nk fib_spec_odd fib_spec_even [symmetric])
    next
      case even: False
      then have "k = 2 * h" unfolding h_def by presburger
      then have nk: "nat k = 2 * nat h" using h(1) by linarith
      show ?thesis using step even
        by (simp add: nk fib_spec_odd fib_spec_even [symmetric])
    qed
  qed
qed

lemma fd_steps_pow2: "\<exists>a b. fd (2 ^ j) = Some (a, b, int j + 2)"
proof (induction j)
  case 0
  show ?case using fd_unfold [of 1 0 1 1] by (simp add: fd_0)
next
  case (Suc j)
  then obtain a b where "fd (2 ^ j) = Some (a, b, int j + 2)" by blast
  then have "fd (2 ^ Suc j div 2) = Some (a, b, int j + 2)" by simp
  from fd_unfold [OF _ this] show ?case by simp
qed

lemma fd_steps_bounds:
  "0 < k \<Longrightarrow> fd k = Some (a, b, s) \<Longrightarrow> 2 \<le> s \<and> 2 ^ nat (s - 2) \<le> k \<and> k < 2 ^ nat (s - 1)"
proof (induction "nat k" arbitrary: k a b s rule: less_induct)
  case less
  have k0: "k \<noteq> 0" using less.prems by simp
  show ?case
  proof (cases "k = 1")
    case True
    have "fd 1 = Some (1, 1, 2)" using fd_unfold [of 1 0 1 1] by (simp add: fd_0)
    with less.prems True show ?thesis by simp
  next
    case False
    then have h: "0 < k div 2" "nat (k div 2) < nat k" using less.prems by linarith+
    obtain a' b' s' where fh: "fd (k div 2) = Some (a', b', s')"
    proof -
      have "0 \<le> k div 2" using h(1) by simp
      from fd_correct [OF this] show ?thesis using that by blast
    qed
    from fd_unfold [OF k0 fh] less.prems(2) have s: "s = s' + 1"
      by (simp split: if_splits)
    from less.hyps [OF h(2) h(1) fh]
    have IH: "2 \<le> s'" "2 ^ nat (s' - 2) \<le> k div 2" "k div 2 < 2 ^ nat (s' - 1)" by simp_all
    have e1: "nat (s - 2) = Suc (nat (s' - 2))" and e2: "nat (s - 1) = Suc (nat (s' - 1))"
      using IH(1) s by linarith+
    have p1: "(2::int) ^ nat (s - 2) = 2 * 2 ^ nat (s' - 2)" unfolding e1 by simp
    have p2: "(2::int) ^ nat (s - 1) = 2 * 2 ^ nat (s' - 1)" unfolding e2 by simp
    have "2 \<le> s" using IH(1) s by simp
    moreover have "2 * 2 ^ nat (s' - 2) \<le> k" using IH(2) by linarith
    moreover have "k < 2 * 2 ^ nat (s' - 1)" using IH(3) by linarith
    ultimately show ?thesis unfolding p1 p2 by blast
  qed
qed

lemma fd_nonneg:
  assumes "fd k = Some y"
  shows "0 \<le> k"
proof (rule fd.raw_induct [where P = "\<lambda>k y. 0 \<le> k", OF _ assms])
  fix fd' :: "int \<Rightarrow> (int \<times> int \<times> int) option" and j :: int and z
  assume IH: "\<And>k y. fd' k = Some y \<Longrightarrow> 0 \<le> k"
    and body: "(if j = 0 then Some (0, 1, 1)
        else fd' (drop_bit 1 j) \<bind>
             (\<lambda>(f_k, f_k1, s).
                 let c = f_k * (push_bit 1 f_k1 - f_k);
                     d = f_k * f_k + f_k1 * f_k1
                 in if j AND 1 \<noteq> 0 then Some (d, c + d, s + 1)
                    else Some (c, d, s + 1))) = Some z"
  show "0 \<le> j"
  proof (cases "j = 0")
    case True
    then show ?thesis by simp
  next
    case False
    with body obtain w where "fd' (drop_bit 1 j) = Some w"
      by (auto split: bind_splits)
    then have "0 \<le> drop_bit 1 j" by (rule IH)
    then show ?thesis by (simp add: drop_bit_eq_div)
  qed
qed

lemma fd_negative: "k < 0 \<Longrightarrow> fd k = None"
  using fd_nonneg [of k] by (cases "fd k") auto

text \<open>Shifting right by one \<open>j\<close> times is shifting right by \<open>j\<close>.\<close>

lemma shr_funpow: "(drop_bit 1 ^^ j) (k::int) = drop_bit j k"
  by (induction j) (simp_all add: drop_bit_drop_bit)


subsection \<open>The naive recursion\<close>

lemma frwc_base: "n < 2 \<Longrightarrow> fib_recursive_with_counts n = (n, 1)"
  by (subst fib_recursive_with_counts.simps) simp

lemma frwc_step:
  "\<not> n < 2 \<Longrightarrow> fib_recursive_with_counts n =
     (fst (fib_recursive_with_counts (n - 1)) + fst (fib_recursive_with_counts (n - 2)),
      snd (fib_recursive_with_counts (n - 1)) + snd (fib_recursive_with_counts (n - 2)) + 1)"
  by (subst fib_recursive_with_counts.simps) (simp add: case_prod_beta)

lemma frwc_value: "0 \<le> n \<Longrightarrow> fst (fib_recursive_with_counts n) = fib_spec (nat n)"
proof (induction n rule: fib_recursive_with_counts.induct)
  case (1 n)
  show ?case
  proof (cases "n < 2")
    case True
    with "1.prems" have "n = 0 \<or> n = 1" by linarith
    then show ?thesis using True by (auto simp: frwc_base)
  next
    case False
    then have n: "nat n = Suc (Suc (nat (n - 2)))" "nat (n - 1) = Suc (nat (n - 2))"
      by linarith+
    have "fst (fib_recursive_with_counts (n - 1)) = fib_spec (nat (n - 1))"
      using "1.IH"(1) [OF False] False by simp
    moreover have "fst (fib_recursive_with_counts (n - 2)) = fib_spec (nat (n - 2))"
      using "1.IH"(2) [OF False] False by (metis diff_ge_0_iff_ge linorder_not_less prod.collapse)
    ultimately show ?thesis by (simp add: frwc_step [OF False] n)
  qed
qed

lemma frwc_nodes: "snd (fib_recursive_with_counts n) = nodes (recursion_tree n)"
proof (induction n rule: fib_recursive_with_counts.induct)
  case (1 n)
  show ?case
  proof (cases "n < 2")
    case True
    then show ?thesis by (simp add: frwc_base recursion_tree.simps)
  next
    case False
    have "snd (fib_recursive_with_counts (n - 1)) = nodes (recursion_tree (n - 1))"
      using "1.IH"(1) [OF False] by simp
    moreover have "snd (fib_recursive_with_counts (n - 2)) = nodes (recursion_tree (n - 2))"
      using "1.IH"(2) [OF False] by (metis prod.collapse)
    ultimately show ?thesis
      by (simp add: frwc_step [OF False] recursion_tree.simps [of n] False)
  qed
qed

subsection \<open>The loop of the iterative strategy\<close>

text \<open>
  The invariant of the loop: started on a pair of consecutive Fibonacci numbers, every
  pass moves the pair one index up and adds one to the count.
\<close>

lemma iter_loop_fib:
  "iter_loop xs (fib_spec i, fib_spec (Suc i), s) =
     (fib_spec (i + length xs), fib_spec (Suc (i + length xs)), s + int (length xs))"
proof (induction xs arbitrary: i s)
  case Nil
  show ?case by simp
next
  case (Cons x xs)
  have "iter_loop (x # xs) (fib_spec i, fib_spec (Suc i), s) =
        iter_loop xs (fib_spec (Suc i), fib_spec (Suc (Suc i)), s + 1)"
    by (simp add: add.commute)
  also note Cons.IH
  finally show ?case by simp
qed

lemma length_range_py: "length (range_py lo hi) = nat (hi - lo)"
  by (simp add: range_py_def)

lemma fiwc_base: "n < 2 \<Longrightarrow> fib_iterative_with_counts n = (n, 1)"
  by (simp add: fib_iterative_with_counts_def)

lemma fiwc_correct:
  assumes "2 \<le> n"
  shows "fib_iterative_with_counts n = (fib_spec (nat n), n)"
proof -
  have len: "length (range_py 2 (n + 1)) = nat n - 1"
    using assms by (simp add: length_range_py)
  have "iter_loop (range_py 2 (n + 1)) (fib_spec 0, fib_spec (Suc 0), 1) =
        (fib_spec (nat n - 1), fib_spec (Suc (nat n - 1)), 1 + int (nat n - 1))"
    unfolding iter_loop_fib len by simp
  moreover have "Suc (nat n - 1) = nat n" "1 + int (nat n - 1) = n" using assms by linarith+
  ultimately show ?thesis using assms by (simp add: fib_iterative_with_counts_def)
qed

subsection \<open>The loop of the timing harness\<close>

text \<open>
  When the strategy returns on every element, the loop appends one record per element, in
  order; the \<open>i\<close>-th record is timed by the clock readings \<open>t + 2 * i\<close> and
  \<open>t + 2 * i + 1\<close>. When the strategy does not return on some element, neither does
  the loop.
\<close>

lemma run_loop_Some:
  "\<forall>n\<in>set ns. fn n \<noteq> None \<Longrightarrow>
   run_loop fn name clk ns t out =
     Some (out @ map (\<lambda>i. \<lparr>res_n = ns ! i, res_value = fst (the (fn (ns ! i))),
                             res_steps = snd (the (fn (ns ! i))),
                             res_time_ms = (clk (t + 2 * i + 1) - clk (t + 2 * i)) * 1000,
                             res_algo = name\<rparr>) [0..<length ns])"
proof (induction ns arbitrary: t out)
  case Nil
  show ?case by simp
next
  case (Cons n ns)
  from Cons.prems obtain v s where fn: "fn n = Some (v, s)" by auto
  have rest: "\<forall>n\<in>set ns. fn n \<noteq> None" using Cons.prems by simp
  show ?case
    by (simp add: fn Cons.IH [OF rest] map_upt_Suc del: upt_Suc)
qed

lemma run_loop_None:
  "\<exists>n\<in>set ns. fn n = None \<Longrightarrow> run_loop fn name clk ns t out = None"
  by (induction ns arbitrary: t out) (auto split: option.splits)

subsection \<open>Bounds on two decimal logarithms\<close>






section \<open>The claims\<close>

text \<open>
  Claim C1. The three strategies agree on the computed Fibonacci value. For every integer
  \<open>n\<close> the recursive and the iterative strategy return the same value; for every
  \<open>n \<ge> 0\<close>, so in particular for every \<open>n\<close> in \<open>{0, ..., 30}\<close>, the fast-doubling
  strategy returns, and returns that same value; and whenever the fast-doubling strategy
  returns at all, its value is the value of the other two.
\<close>

theorem strategies_agree:
  "fst (fib_recursive_with_counts n) = fst (fib_iterative_with_counts n) \<and>
   (0 \<le> n \<longrightarrow>
      map_option fst (fib_fast_doubling_with_counts n) = Some (fst (fib_recursive_with_counts n))) \<and>
   (\<forall>y. fib_fast_doubling_with_counts n = Some y \<longrightarrow>
      fst y = fst (fib_recursive_with_counts n) \<and> fst y = fst (fib_iterative_with_counts n))"
proof -
  have ri: "fst (fib_recursive_with_counts n) = fst (fib_iterative_with_counts n)"
  proof (cases "n < 2")
    case True
    then show ?thesis by (simp add: frwc_base fiwc_base)
  next
    case False
    then show ?thesis by (simp add: frwc_value fiwc_correct)
  qed
  have fd: "map_option fst (fib_fast_doubling_with_counts n) = Some (fst (fib_recursive_with_counts n))"
    if "0 \<le> n"
  proof -
    from fd_correct [OF that] obtain s
      where "fd n = Some (fib_spec (nat n), fib_spec (Suc (nat n)), s)" by blast
    then show ?thesis by (simp add: fib_fast_doubling_with_counts_def frwc_value that)
  qed
  have "fst y = fst (fib_recursive_with_counts n)" if y: "fib_fast_doubling_with_counts n = Some y" for y
  proof -
    from y obtain z where "fd n = Some z"
      by (auto simp: fib_fast_doubling_with_counts_def split: bind_splits)
    then have "0 \<le> n" by (rule fd_nonneg)
    from fd [OF this] y show ?thesis by simp
  qed
  with ri fd show ?thesis by simp
qed

text \<open>The agreement at \<open>n = 30\<close>, the largest input of the tested range: all three give 832040.\<close>

theorem strategies_agree_witness:
  "(0::int) \<le> 30 \<and>
   fst (fib_recursive_with_counts 30) = 832040 \<and> fst (fib_iterative_with_counts 30) = 832040 \<and>
   map_option fst (fib_fast_doubling_with_counts 30) = Some 832040"
proof -
  have i: "fst (fib_iterative_with_counts 30) = 832040" by code_simp
  have h: "(0::int) \<le> 30" by simp
  from strategies_agree [of 30]
  have r: "fst (fib_recursive_with_counts 30) = fst (fib_iterative_with_counts 30)"
    by (rule conjunct1)
  from strategies_agree [of 30] h
  have f: "map_option fst (fib_fast_doubling_with_counts 30) =
           Some (fst (fib_recursive_with_counts 30))" by blast
  show ?thesis unfolding f r i by simp
qed

text \<open>
  Claim C2. For every \<open>n \<ge> 0\<close> the fast-doubling strategy returns \<open>fib(n)\<close> as its
  value. The internal recursion \<open>fd\<close> returns the pair \<open>(F(n), F(n+1))\<close> at every level,
  bottoms out at \<open>fd 0 = (0, 1, 1)\<close> with \<open>(F(0), F(1)) = (0, 1)\<close>, and for \<open>n \<noteq> 0\<close>
  is computed from the result \<open>(a, b, s)\<close> of \<open>fd (n >> 1)\<close> by the two doubling formulas
  \<open>a * (2 * b - a)\<close> and \<open>a * a + b * b\<close>, which are the identities
  \<open>F(2m) = F(m) * (2 * F(m+1) - F(m))\<close> and \<open>F(2m+1) = F(m)\<^sup>2 + F(m+1)\<^sup>2\<close>.
\<close>

theorem fast_doubling_computes_fib:
  assumes "0 \<le> n"
  shows "(\<exists>steps. fib_fast_doubling_with_counts n = Some (fib_spec (nat n), steps)) \<and>
    (\<exists>s. fd n = Some (fib_spec (nat n), fib_spec (nat n + 1), s)) \<and>
    fd 0 = Some (0, 1, 1) \<and> (fib_spec 0, fib_spec 1) = (0, 1) \<and>
    (n \<noteq> 0 \<longrightarrow>
       fd n = (case fd (drop_bit 1 n) of
                 None \<Rightarrow> None
               | Some (a, b, s) \<Rightarrow>
                   if odd n then Some (a * a + b * b, a * (2 * b - a) + (a * a + b * b), s + 1)
                   else Some (a * (2 * b - a), a * a + b * b, s + 1))) \<and>
    fib_spec (2 * m) = fib_spec m * (2 * fib_spec (m + 1) - fib_spec m) \<and>
    fib_spec (2 * m + 1) = fib_spec m * fib_spec m + fib_spec (m + 1) * fib_spec (m + 1)"
proof -
  from fd_correct [OF assms] obtain s
    where s: "fd n = Some (fib_spec (nat n), fib_spec (Suc (nat n)), s)" by blast
  have 1: "\<exists>steps. fib_fast_doubling_with_counts n = Some (fib_spec (nat n), steps)"
    using s by (simp add: fib_fast_doubling_with_counts_def)
  have 2: "\<exists>s. fd n = Some (fib_spec (nat n), fib_spec (nat n + 1), s)"
    using s by simp
  have 3: "fd n = (case fd (drop_bit 1 n) of
                 None \<Rightarrow> None
               | Some (a, b, s) \<Rightarrow>
                   if odd n then Some (a * a + b * b, a * (2 * b - a) + (a * a + b * b), s + 1)
                   else Some (a * (2 * b - a), a * a + b * b, s + 1))" if "n \<noteq> 0"
  proof (cases "fd (n div 2)")
    case None
    with fd_None [OF that] show ?thesis by (simp add: drop_bit_eq_div)
  next
    case (Some y)
    obtain a b t where "y = (a, b, t)" by (cases y) 
    with Some fd_unfold [OF that, of a b t] show ?thesis by (simp add: drop_bit_eq_div)
  qed
  have 4: "fib_spec (2 * m) = fib_spec m * (2 * fib_spec (m + 1) - fib_spec m)"
    using fib_spec_even [of m] by simp
  have 5: "fib_spec (2 * m + 1) = fib_spec m * fib_spec m + fib_spec (m + 1) * fib_spec (m + 1)"
    using fib_spec_odd [of m] by simp
  have 6: "(fib_spec 0, fib_spec 1) = (0, 1)" by simp
  from 1 2 3 4 5 6 fd_0 show ?thesis by blast
qed

text \<open>At \<open>n = 10\<close>: the value is 55, the pair of \<open>fd\<close> is \<open>(55, 89)\<close>.\<close>

theorem fast_doubling_computes_fib_witness:
  "(0::int) \<le> 10 \<and>
   (\<exists>steps. fib_fast_doubling_with_counts 10 = Some (55, steps)) \<and>
   (\<exists>s. fd 10 = Some (55, 89, s)) \<and>
   fib_spec (2 * 5) = fib_spec 5 * (2 * fib_spec (5 + 1) - fib_spec 5)"
proof -
  have v: "fib_spec (nat 10) = 55" "fib_spec (nat 10 + 1) = 89" by code_simp+
  have h: "(0::int) \<le> 10" by simp
  from fast_doubling_computes_fib [OF h, of 5] h show ?thesis unfolding v by blast
qed

text \<open>
  Claim C5, as the code has it. The fast-doubling strategy returns \<open>(0, 1)\<close> at \<open>n = 0\<close>,
  the base-case step count of the other two strategies, and \<open>(1, 2)\<close> at \<open>n = 1\<close>: the
  call \<open>fd 1\<close> counts one step more than the base case \<open>fd 0\<close> it recurses to.
\<close>

theorem fast_doubling_base_cases:
  "fib_fast_doubling_with_counts 0 = Some (0, 1) \<and>
   fib_fast_doubling_with_counts 1 = Some (1, 2) \<and>
   fib_recursive_with_counts 0 = (0, 1) \<and> fib_iterative_with_counts 0 = (0, 1)"
  by code_simp

text \<open>The result at \<open>n = 1\<close> is not \<open>(1, 1)\<close>.\<close>

theorem fast_doubling_1_counterexample:
  "fib_fast_doubling_with_counts 1 \<noteq> Some (1, 1)"
  by code_simp

text \<open>
  Claim C6. The step count of the fast-doubling strategy grows logarithmically. A call
  \<open>fd n\<close> with \<open>n \<noteq> 0\<close> counts exactly one step more than the call \<open>fd (n >> 1)\<close> it
  makes; at \<open>n = 2\<^sup>k\<close> the step count is \<open>k + 2\<close>; for every \<open>n > 0\<close> the step count
  \<open>t\<close> satisfies \<open>2\<^bsup>t-2\<^esup> \<le> n < 2\<^bsup>t-1\<^esup>\<close>, that is, \<open>t\<close> is the floor of \<open>log\<^sub>2 n\<close>
  plus 2; and the step count at \<open>2\<^sup>2\<^sup>0\<close> is less than three times the one at \<open>2\<^sup>1\<^sup>0\<close>.
\<close>

theorem fast_doubling_steps_logarithmic:
  "(n \<noteq> 0 \<and> fd (drop_bit 1 n) = Some (a, b, s) \<longrightarrow> (\<exists>a' b'. fd n = Some (a', b', s + 1))) \<and>
   map_option snd (fib_fast_doubling_with_counts (2 ^ k)) = Some (int k + 2) \<and>
   (0 < n \<and> map_option snd (fib_fast_doubling_with_counts n) = Some t \<longrightarrow>
      2 \<le> t \<and> 2 ^ nat (t - 2) \<le> n \<and> n < 2 ^ nat (t - 1)) \<and>
   (\<exists>s20 s10. map_option snd (fib_fast_doubling_with_counts (2 ^ 20)) = Some s20 \<and>
      map_option snd (fib_fast_doubling_with_counts (2 ^ 10)) = Some s10 \<and> s20 < s10 * 3)"
proof -
  have steps_pow2: "map_option snd (fib_fast_doubling_with_counts (2 ^ j)) = Some (int j + 2)" for j
    using fd_steps_pow2 [of j] by (auto simp: fib_fast_doubling_with_counts_def)
  have 1: "n \<noteq> 0 \<and> fd (drop_bit 1 n) = Some (a, b, s) \<longrightarrow> (\<exists>a' b'. fd n = Some (a', b', s + 1))"
    using fd_unfold [of n a b s] by (simp add: drop_bit_eq_div)
  have 3: "0 < n \<and> map_option snd (fib_fast_doubling_with_counts n) = Some t \<longrightarrow>
      2 \<le> t \<and> 2 ^ nat (t - 2) \<le> n \<and> n < 2 ^ nat (t - 1)"
    using fd_steps_bounds [of n]
    by (auto simp: fib_fast_doubling_with_counts_def split: bind_splits)
  have 4: "\<exists>s20 s10. map_option snd (fib_fast_doubling_with_counts (2 ^ 20)) = Some s20 \<and>
      map_option snd (fib_fast_doubling_with_counts (2 ^ 10)) = Some s10 \<and> s20 < s10 * 3"
    unfolding steps_pow2 by simp
  from 1 steps_pow2 [of k] 3 4 show ?thesis by blast
qed

text \<open>At \<open>n = 8 = 2\<^sup>3\<close>: \<open>fd 4\<close> counts 4 steps, \<open>fd 8\<close> counts 5.\<close>

theorem fast_doubling_steps_logarithmic_witness:
  "map_option snd (fib_fast_doubling_with_counts (2 ^ 3)) = Some 5 \<and>
   (\<exists>a' b'. fd 8 = Some (a', b', 4 + 1)) \<and> (2::int) ^ nat (5 - 2) \<le> 8 \<and> (8::int) < 2 ^ nat (5 - 1)"
proof -
  have 4: "fd (drop_bit 1 8) = Some (3, 5, 4)" by code_simp
  have 8: "map_option snd (fib_fast_doubling_with_counts 8) = Some 5" by code_simp
  from fast_doubling_steps_logarithmic [of 8 3 5 4 3 5] 4 8 show ?thesis by simp
qed

text \<open>
  Claim C3. For every \<open>n \<ge> 0\<close> the recursive strategy returns \<open>(fib(n), steps)\<close>, where
  \<open>fib(0) = 0\<close>, \<open>fib(1) = 1\<close> and \<open>fib(n) = fib(n-1) + fib(n-2)\<close>; the step count is 1
  for \<open>n < 2\<close> and otherwise 1 plus the step counts at \<open>n - 1\<close> and \<open>n - 2\<close>, which is
  the number of nodes of the tree of calls of the naive recursion.
\<close>

theorem recursive_contract:
  assumes "0 \<le> n"
  shows "fst (fib_recursive_with_counts n) = fib_spec (nat n) \<and>
    fib_spec 0 = 0 \<and> fib_spec 1 = 1 \<and>
    (2 \<le> n \<longrightarrow> fib_spec (nat n) = fib_spec (nat (n - 1)) + fib_spec (nat (n - 2))) \<and>
    snd (fib_recursive_with_counts n) =
      (if n < 2 then 1
       else 1 + snd (fib_recursive_with_counts (n - 1)) + snd (fib_recursive_with_counts (n - 2))) \<and>
    snd (fib_recursive_with_counts n) = nodes (recursion_tree n)"
proof -
  have rec: "fib_spec (nat n) = fib_spec (nat (n - 1)) + fib_spec (nat (n - 2))" if "2 \<le> n"
  proof -
    from that have "nat n = Suc (Suc (nat (n - 2)))" "nat (n - 1) = Suc (nat (n - 2))"
      by linarith+
    then show ?thesis by simp
  qed
  have steps: "snd (fib_recursive_with_counts n) =
      (if n < 2 then 1
       else 1 + snd (fib_recursive_with_counts (n - 1)) + snd (fib_recursive_with_counts (n - 2)))"
    by (cases "n < 2") (simp_all add: frwc_base frwc_step)
  from frwc_value [OF assms] rec steps frwc_nodes [of n] show ?thesis by simp
qed

text \<open>At \<open>n = 10\<close>: the value is 55 and the recursion evaluates 177 nodes.\<close>

theorem recursive_contract_witness:
  "(0::int) \<le> 10 \<and> fib_recursive_with_counts 10 = (55, 177) \<and>
   fib_spec (nat 10) = 55 \<and> nodes (recursion_tree 10) = 177"
proof -
  have h: "(0::int) \<le> 10" by simp
  have v: "fib_recursive_with_counts 10 = (55, 177)" by code_simp
  from recursive_contract [OF h] show ?thesis unfolding v by simp
qed

text \<open>
  Claim C4. For every \<open>n \<ge> 0\<close> the iterative strategy returns \<open>(fib(n), steps)\<close> with
  \<open>steps = 1\<close> for \<open>n < 2\<close> and \<open>steps = n\<close> for \<open>n \<ge> 2\<close>, that is \<open>max(1, n)\<close>. The
  loop maintains the running pair: for every \<open>k\<close> from 1 to \<open>n\<close>, after the first
  \<open>k - 1\<close> passes over \<^verbatim>\<open>range(2, n+1)\<close> the state is
  \<open>(a, b, steps) = (fib(k-1), fib(k), k)\<close>.
\<close>

theorem iterative_contract:
  assumes "0 \<le> n"
  shows "fib_iterative_with_counts n = (fib_spec (nat n), if n < 2 then 1 else n) \<and>
    snd (fib_iterative_with_counts n) = max 1 n \<and>
    (\<forall>k. 1 \<le> k \<and> k \<le> n \<longrightarrow>
       iter_loop (take (nat (k - 1)) (range_py 2 (n + 1))) (0, 1, 1) =
         (fib_spec (nat (k - 1)), fib_spec (nat k), k))"
proof -
  have res: "fib_iterative_with_counts n = (fib_spec (nat n), if n < 2 then 1 else n)"
  proof (cases "n < 2")
    case True
    with assms have "n = 0 \<or> n = 1" by linarith
    then show ?thesis by (auto simp: fiwc_base)
  next
    case False
    then show ?thesis by (simp add: fiwc_correct)
  qed
  have inv: "iter_loop (take (nat (k - 1)) (range_py 2 (n + 1))) (0, 1, 1) =
         (fib_spec (nat (k - 1)), fib_spec (nat k), k)" if k: "1 \<le> k" "k \<le> n" for k
  proof -
    have len: "length (take (nat (k - 1)) (range_py 2 (n + 1))) = nat (k - 1)"
      using k by (simp add: length_range_py)
    have "iter_loop (take (nat (k - 1)) (range_py 2 (n + 1))) (fib_spec 0, fib_spec (Suc 0), 1) =
        (fib_spec (nat (k - 1)), fib_spec (Suc (nat (k - 1))), 1 + int (nat (k - 1)))"
      unfolding iter_loop_fib len by simp
    moreover have "Suc (nat (k - 1)) = nat k" "1 + int (nat (k - 1)) = k" using k by linarith+
    ultimately show ?thesis by simp
  qed
  from res inv show ?thesis by simp
qed

text \<open>At \<open>n = 10\<close>: the result is \<open>(55, 10)\<close>, and after 6 passes the state is \<open>(8, 13, 7)\<close>.\<close>

theorem iterative_contract_witness:
  "(0::int) \<le> 10 \<and> fib_iterative_with_counts 10 = (55, 10) \<and>
   iter_loop (take (nat (7 - 1)) (range_py 2 (10 + 1))) (0, 1, 1) = (8, 13, 7)"
proof -
  have h: "(0::int) \<le> 10" by simp
  have v: "fib_spec (nat 10) = 55" "fib_spec (nat (7 - 1)) = 8" "fib_spec (nat 7) = 13"
    by code_simp+
  from iterative_contract [OF h] have
    a: "fib_iterative_with_counts 10 = (fib_spec (nat 10), if (10::int) < 2 then 1 else 10)" and
    b: "\<forall>k. 1 \<le> k \<and> k \<le> 10 \<longrightarrow>
       iter_loop (take (nat (k - 1)) (range_py 2 (10 + 1))) (0, 1, 1) =
         (fib_spec (nat (k - 1)), fib_spec (nat k), k)"
    by blast+
  from b [rule_format, of 7] have
    "iter_loop (take (nat (7 - 1)) (range_py 2 (10 + 1))) (0, 1, 1) =
         (fib_spec (nat (7 - 1)), fib_spec (nat 7), 7)" by simp
  with a show ?thesis unfolding v by simp
qed

text \<open>
  Claim C7. For every strategy \<open>fn\<close>, list \<open>ns\<close> and label \<open>name\<close>, when \<open>fn\<close> returns on
  every element of \<open>ns\<close>, \<open>run_and_time fn ns name\<close> returns a list with exactly one
  record per element of \<open>ns\<close>, in the order of \<open>ns\<close>; the \<open>i\<close>-th record has
  \<open>n = ns[i]\<close>, \<open>algo = name\<close> and \<open>(value, steps) = fn(ns[i])\<close>. This holds for every
  clock: the function reads the clock and calls \<open>fn\<close>, and its only result is the returned
  list.
\<close>

theorem run_and_time_results:
  assumes "\<forall>n\<in>set ns. fn n \<noteq> None"
  shows "\<exists>out. run_and_time fn ns name clk = Some out \<and> length out = length ns \<and>
     (\<forall>i<length ns.
        res_n (out ! i) = ns ! i \<and> res_algo (out ! i) = name \<and>
        fn (ns ! i) = Some (res_value (out ! i), res_steps (out ! i)))"
proof -
  have "fn (ns ! i) = Some (fst (the (fn (ns ! i))), snd (the (fn (ns ! i))))"
    if "i < length ns" for i
    using assms nth_mem [OF that] by (cases "fn (ns ! i)") auto
  then show ?thesis
    unfolding run_and_time_def run_loop_Some [OF assms] by simp
qed

text \<open>
  The fast-doubling strategy over \<open>[0, 10]\<close>: two records, the second one for \<open>n = 10\<close>
  with value 55 and 5 steps.
\<close>

theorem run_and_time_results_witness:
  "fib_fast_doubling_with_counts 0 \<noteq> None \<and> fib_fast_doubling_with_counts 10 \<noteq> None \<and>
   (\<exists>out. run_and_time fib_fast_doubling_with_counts [0, 10] ''fast_doubling'' real = Some out \<and>
      length out = 2 \<and> res_n (out ! 1) = 10 \<and> res_algo (out ! 1) = ''fast_doubling'' \<and>
      res_value (out ! 1) = 55 \<and> res_steps (out ! 1) = 5)"
proof -
  have v: "fib_fast_doubling_with_counts 0 = Some (0, 1)"
    "fib_fast_doubling_with_counts 10 = Some (55, 5)" by code_simp+
  then have h: "\<forall>n\<in>set [0, 10]. fib_fast_doubling_with_counts n \<noteq> None" by simp
  from run_and_time_results [OF h, of "''fast_doubling''" real] obtain out
    where out: "run_and_time fib_fast_doubling_with_counts [0, 10] ''fast_doubling'' real = Some out"
      "length out = length [0, 10 :: int]"
      "\<forall>i<length [0, 10 :: int].
        res_n (out ! i) = [0, 10] ! i \<and> res_algo (out ! i) = ''fast_doubling'' \<and>
        fib_fast_doubling_with_counts ([0, 10] ! i) =
          Some (res_value (out ! i), res_steps (out ! i))"
    by blast
  from out(3) [rule_format, of 1]
  have "res_n (out ! 1) = 10 \<and> res_algo (out ! 1) = ''fast_doubling'' \<and>
      res_value (out ! 1) = 55 \<and> res_steps (out ! 1) = 5"
    by (simp add: v)
  with v out(1,2) show ?thesis by simp
qed




text \<open>
  Claim C9. For every integer \<open>n < 0\<close> the recursive and the iterative strategy both return
  \<open>(n, 1)\<close>: a negative input takes the \<open>n < 2\<close> branch and is passed through as the value.
  Neither function has a failing branch.
\<close>

theorem negative_inputs_pass_through:
  "n < 0 \<Longrightarrow> fib_recursive_with_counts n = (n, 1) \<and> fib_iterative_with_counts n = (n, 1)"
  by (simp add: frwc_base fiwc_base)

text \<open>At \<open>n = -3\<close> both strategies return \<open>(-3, 1)\<close>.\<close>

theorem negative_inputs_pass_through_witness:
  "(- 3 :: int) < 0 \<and> fib_recursive_with_counts (- 3) = (- 3, 1) \<and>
   fib_iterative_with_counts (- 3) = (- 3, 1)"
  using negative_inputs_pass_through [of "- 3"] by simp

text \<open>
  Claim C10. For every \<open>n \<ge> 0\<close> the fast-doubling strategy returns. The recursion of
  \<open>fd\<close> is on \<open>k >> 1\<close>, which for \<open>k > 0\<close> is non-negative and strictly smaller than
  \<open>k\<close>, and repeated shifting of a non-negative \<open>n\<close> reaches 0, the base case. The
  precondition is needed: for \<open>n < 0\<close> every repeated shift stays negative, the base case is
  never reached and the strategy does not return.
\<close>

theorem fast_doubling_terminates:
  "(0 \<le> n \<longrightarrow> (\<exists>y. fib_fast_doubling_with_counts n = Some y)) \<and>
   (0 < n \<longrightarrow> 0 \<le> drop_bit 1 n \<and> drop_bit 1 n < n) \<and>
   (0 \<le> n \<longrightarrow> (\<exists>j. (drop_bit 1 ^^ j) n = 0)) \<and>
   (n < 0 \<longrightarrow> (\<forall>j. (drop_bit 1 ^^ j) n < 0) \<and> fib_fast_doubling_with_counts n = None)"
proof -
  have 1: "\<exists>y. fib_fast_doubling_with_counts n = Some y" if "0 \<le> n"
    using fd_correct [OF that] by (auto simp: fib_fast_doubling_with_counts_def)
  have 2: "0 \<le> drop_bit 1 n \<and> drop_bit 1 n < n" if "0 < n"
    using that by (simp add: drop_bit_eq_div)
  have 3: "\<exists>j. (drop_bit 1 ^^ j) n = 0" if "0 \<le> n"
  proof -
    have "n < 2 ^ nat n" using that
      by (metis int_nat_eq of_nat_less_two_power of_nat_numeral of_nat_power)
    then have "drop_bit (nat n) n = 0" using that by (simp add: drop_bit_eq_div)
    then show ?thesis unfolding shr_funpow by blast
  qed
  have 4: "(drop_bit 1 ^^ j) n < 0" if "n < 0" for j
    using that unfolding shr_funpow by simp
  have 5: "fib_fast_doubling_with_counts n = None" if "n < 0"
    using fd_negative [OF that] by (simp add: fib_fast_doubling_with_counts_def)
  from 1 2 3 4 5 show ?thesis by blast
qed

text \<open>The strategy returns at \<open>n = 10\<close> and does not return at \<open>n = -1\<close>.\<close>

theorem fast_doubling_terminates_witness:
  "(\<exists>y. fib_fast_doubling_with_counts 10 = Some y) \<and> drop_bit 1 (10::int) < 10 \<and>
   fib_fast_doubling_with_counts (- 1) = None"
  using fast_doubling_terminates [of 10] fast_doubling_terminates [of "- 1"] by simp

end
